theory Spec2Isabelle
  imports Complex_Main "HOL-Library.Multiset"
begin

section \<open>Strings and identifier predicates\<close>

text \<open>
  Identifiers, years and document ids are Python \<open>str\<close> values. They are modelled as
  \<open>string\<close> over ASCII: \<open>str.isdigit\<close> holds of a non-empty string of the characters
  \<open>0\<close> to \<open>9\<close>, \<open>str.isalnum\<close> of a non-empty string of ASCII letters and digits.
  Both are false of the empty string, as in Python.
\<close>

definition is_digit_char :: "char \<Rightarrow> bool" where
  "is_digit_char c \<longleftrightarrow> c \<in> set ''0123456789''"

definition is_alpha_char :: "char \<Rightarrow> bool" where
  "is_alpha_char c \<longleftrightarrow>
     c \<in> set ''abcdefghijklmnopqrstuvwxyzABCDEFGHIJKLMNOPQRSTUVWXYZ''"

definition isdigit :: "string \<Rightarrow> bool" where
  "isdigit s \<longleftrightarrow> s \<noteq> [] \<and> list_all is_digit_char s"

definition isalnum :: "string \<Rightarrow> bool" where
  "isalnum s \<longleftrightarrow> s \<noteq> [] \<and> list_all (\<lambda>c. is_alpha_char c \<or> is_digit_char c) s"

definition startswith :: "string \<Rightarrow> string \<Rightarrow> bool" where
  "startswith s p \<longleftrightarrow> take (length p) s = p"

text \<open>\<open>did.split(':', 1)[1]\<close>, for a string that contains a colon: what follows the
  first colon.\<close>

definition after_colon :: "string \<Rightarrow> string" where
  "after_colon s = drop 1 (dropWhile (\<lambda>c. c \<noteq> CHR '':'') s)"

section \<open>Pair extraction (ner.py)\<close>

text \<open>
  A tagged span is the tuple \<open>(start, end, snippet, identifier)\<close>; the annotation of a
  document holds the gene spans and the disease spans. The annotation service's answer
  \<open>ann\<close> is a dictionary from document id to tags, given by its items in order.
\<close>

type_synonym mention = "int \<times> int \<times> string \<times> string"

record tags =
  genes :: "mention list"
  diseases :: "mention list"

record pubmed_record =
  pmid :: string
  title :: string
  abstract :: string
  year :: string

type_synonym pair = "string \<times> string \<times> string \<times> string"

definition ident :: "mention \<Rightarrow> string" where
  "ident m = snd (snd (snd m))"

text \<open>The disease filter of the extraction loop: with a colon, the part after the first
  colon is alphanumeric; without, the letter D followed by digits.\<close>

definition keeps_disease :: "string \<Rightarrow> bool" where
  "keeps_disease did \<longleftrightarrow>
     (if CHR '':'' \<in> set did then isalnum (after_colon did)
      else startswith did ''D'' \<and> isdigit (drop 1 did))"

text \<open>
  \<open>genes\<close> and \<open>diseases\<close> are Python sets: each kept identifier once. The order in
  which a set is iterated is not specified by Python; the model fixes one order
  (\<open>remdups\<close>) and the theorems below do not depend on it.
\<close>

definition gene_set :: "tags \<Rightarrow> string list" where
  "gene_set t = remdups (filter isdigit (map ident (genes t)))"

definition disease_set :: "tags \<Rightarrow> string list" where
  "disease_set t = remdups (filter keeps_disease (map ident (diseases t)))"

text \<open>\<open>year_map = {r["pmid"]: r["year"] for r in recs}\<close>: the last record of a
  document id wins; \<open>year_map.get(pmid, "")\<close>.\<close>

definition year_map_get :: "pubmed_record list \<Rightarrow> string \<Rightarrow> string" where
  "year_map_get recs p =
     (case map_of (rev (map (\<lambda>r. (pmid r, year r)) recs)) p of
        None \<Rightarrow> [] | Some y \<Rightarrow> y)"

definition doc_pairs :: "pubmed_record list \<Rightarrow> string \<Rightarrow> tags \<Rightarrow> pair list" where
  "doc_pairs recs p t =
     concat (map (\<lambda>g. map (\<lambda>d. (p, g, d, year_map_get recs p)) (disease_set t))
                 (gene_set t))"

definition extract_gene_disease_pairs ::
  "pubmed_record list \<Rightarrow> (string \<times> tags) list \<Rightarrow> pair list" where
  "extract_gene_disease_pairs recs ann =
     concat (map (\<lambda>(p, t). doc_pairs recs p t) ann)"

section \<open>Graph construction (graph_builder.py)\<close>

definition is_valid_gene_id :: "string \<Rightarrow> bool" where
  "is_valid_gene_id gene_id \<longleftrightarrow> isdigit gene_id"

definition is_valid_disease_id :: "string \<Rightarrow> bool" where
  "is_valid_disease_id disease_id \<longleftrightarrow>
     (startswith disease_id ''MESH:'' \<or> startswith disease_id ''OMIM:'') \<or>
     (startswith disease_id ''D'' \<and> isdigit (drop 1 disease_id))"

text \<open>
  The graph is an undirected \<open>networkx.Graph\<close>. Its node table is a dictionary from node
  id to the node's \<open>type\<close> attribute (\<open>None\<close> when the attribute is absent), kept in
  insertion order. An undirected edge owns one attribute dictionary, shared by both
  directions of the adjacency; the model keeps one entry per edge, in creation order, with
  the endpoints as \<open>add_edge\<close> received them and the two evidence lists.
\<close>

record edge =
  eu :: string
  ev :: string
  pmids :: "string list"
  years :: "string list"

record graph =
  nodes :: "(string \<times> string option) list"
  edges :: "edge list"

definition empty_graph :: graph where
  "empty_graph = \<lparr>nodes = [], edges = []\<rparr>"

definition has_node :: "graph \<Rightarrow> string \<Rightarrow> bool" where
  "has_node G n \<longleftrightarrow> n \<in> set (map fst (nodes G))"

text \<open>Assignment to a dictionary key: an existing key keeps its place, a new key goes
  last.\<close>

fun dict_set :: "('k \<times> 'v) list \<Rightarrow> 'k \<Rightarrow> 'v \<Rightarrow> ('k \<times> 'v) list" where
  "dict_set [] k v = [(k, v)]"
| "dict_set ((k', v') # kvs) k v =
     (if k' = k then (k, v) # kvs else (k', v') # dict_set kvs k v)"

definition add_node :: "graph \<Rightarrow> string \<Rightarrow> string \<Rightarrow> graph" where
  "add_node G n ty = G\<lparr>nodes := dict_set (nodes G) n (Some ty)\<rparr>"

text \<open>The edge is undirected: it joins \<open>u\<close> and \<open>v\<close> in either orientation.\<close>

definition joins :: "edge \<Rightarrow> string \<Rightarrow> string \<Rightarrow> bool" where
  "joins e u v \<longleftrightarrow> (eu e = u \<and> ev e = v) \<or> (eu e = v \<and> ev e = u)"

definition has_edge :: "graph \<Rightarrow> string \<Rightarrow> string \<Rightarrow> bool" where
  "has_edge G u v \<longleftrightarrow> list_ex (\<lambda>e. joins e u v) (edges G)"

text \<open>\<open>G[u][v]["pmids"].append(p); G[u][v]["years"].append(y)\<close> on the shared attribute
  dictionary of the edge between \<open>u\<close> and \<open>v\<close>.\<close>

definition append_evidence :: "graph \<Rightarrow> string \<Rightarrow> string \<Rightarrow> string \<Rightarrow> string \<Rightarrow> graph" where
  "append_evidence G u v p y =
     G\<lparr>edges := map (\<lambda>e. if joins e u v
                            then e\<lparr>pmids := pmids e @ [p], years := years e @ [y]\<rparr>
                            else e) (edges G)\<rparr>"

text \<open>\<open>G.add_edge(u, v, pmids=ps, years=ys)\<close>: an existing edge has its attributes
  replaced; otherwise the edge is created, and so is an endpoint that is not yet a node
  (without a type).\<close>

definition ensure_node :: "(string \<times> string option) list \<Rightarrow> string \<Rightarrow> (string \<times> string option) list" where
  "ensure_node ns n = (if n \<in> set (map fst ns) then ns else ns @ [(n, None)])"

definition add_edge :: "graph \<Rightarrow> string \<Rightarrow> string \<Rightarrow> string list \<Rightarrow> string list \<Rightarrow> graph" where
  "add_edge G u v ps ys =
     (if has_edge G u v
      then G\<lparr>edges := map (\<lambda>e. if joins e u v then e\<lparr>pmids := ps, years := ys\<rparr> else e)
                          (edges G)\<rparr>
      else \<lparr>nodes = ensure_node (ensure_node (nodes G) u) v,
            edges = edges G @ [\<lparr>eu = u, ev = v, pmids = ps, years = ys\<rparr>]\<rparr>)"

text \<open>The body of the loop over the pairs; the state is the graph and the count of
  skipped pairs.\<close>

definition build_step :: "graph \<times> nat \<Rightarrow> pair \<Rightarrow> graph \<times> nat" where
  "build_step s pr =
     (case s of (G, skipped) \<Rightarrow>
      case pr of (p, g, d, y) \<Rightarrow>
        if \<not> is_valid_gene_id g \<or> \<not> is_valid_disease_id d then (G, skipped + 1)
        else
          let G1 = (if \<not> has_node G g then add_node G g ''gene'' else G);
              G2 = (if \<not> has_node G1 d then add_node G1 d ''disease'' else G1)
          in (if has_edge G2 g d then append_evidence G2 g d p y
              else add_edge G2 g d [p] [y], skipped))"

definition build_loop :: "pair list \<Rightarrow> graph \<times> nat" where
  "build_loop prs = foldl build_step (empty_graph, 0) prs"

definition build_graph :: "pair list \<Rightarrow> graph" where
  "build_graph prs = fst (build_loop prs)"

definition build_temporal_graph :: "pubmed_record list \<Rightarrow> (string \<times> tags) list \<Rightarrow> graph" where
  "build_temporal_graph recs ann = build_graph (extract_gene_disease_pairs recs ann)"

section \<open>Temporal analysis (temporal_analysis.py)\<close>

datatype py_error = KeyError | ValueError | ConnectionError | JSONDecodeError | AttributeError
  | ParseError










text \<open>\<open>collections.Counter\<close>: a dictionary in order of first occurrence.\<close>

fun counter_add :: "(int \<times> nat) list \<Rightarrow> int \<Rightarrow> (int \<times> nat) list" where
  "counter_add [] y = [(y, 1)]"
| "counter_add ((k, c) # kcs) y =
     (if k = y then (k, c + 1) # kcs else (k, c) # counter_add kcs y)"

definition Counter :: "int list \<Rightarrow> (int \<times> nat) list" where
  "Counter ys = foldl counter_add [] ys"

text \<open>\<open>max(items, key=lambda x: x[1])\<close>: the running maximum is replaced only by an item
  with a strictly greater count, so the first item with the greatest count is returned.\<close>

fun max_by_count :: "(int \<times> nat) \<Rightarrow> (int \<times> nat) list \<Rightarrow> (int \<times> nat)" where
  "max_by_count best [] = best"
| "max_by_count best (x # xs) = max_by_count (if snd best < snd x then x else best) xs"

fun min_from :: "int \<Rightarrow> int list \<Rightarrow> int" where
  "min_from best [] = best"
| "min_from best (x # xs) = min_from (if x < best then x else best) xs"

text \<open>\<open>dict(sorted(cnt.items()))\<close>: the keys are distinct, so the items are ordered by
  year.\<close>

definition sorted_items :: "(int \<times> nat) list \<Rightarrow> (int \<times> nat) list" where
  "sorted_items cnt = sort_key fst cnt"

text \<open>One row of the report. \<open>burstiness\<close> is Python's true division of two integers; the
  model keeps the exact quotient.\<close>

record row =
  gene :: string
  disease :: string
  first_mention :: int
  peak_year :: int
  time_to_peak :: int
  total_mentions :: nat
  peak_count :: nat
  burstiness :: rat
  annual_counts :: "(int \<times> nat) list"

text \<open>The statistics of one edge from its numeric years. \<open>min\<close> and \<open>max\<close> of an empty
  counter raise \<open>ValueError\<close>: the result \<open>None\<close>.\<close>

definition temporal_row :: "string \<Rightarrow> string \<Rightarrow> int list \<Rightarrow> row option" where
  "temporal_row g d ys =
     (case Counter ys of
        [] \<Rightarrow> None
      | c # cs \<Rightarrow>
          let first = min_from (fst c) (map fst cs);
              pk = max_by_count c cs;
              total = sum_list (map snd (c # cs));
              burst = (if total \<noteq> 0 then of_nat (snd pk) / of_nat total else 0)
          in Some \<lparr>gene = g, disease = d, first_mention = first, peak_year = fst pk,
                   time_to_peak = fst pk - first, total_mentions = total,
                   peak_count = snd pk, burstiness = burst,
                   annual_counts = sorted_items (c # cs)\<rparr>)"




section \<open>Retrieval and its cache (data_retrieval.py)\<close>

text \<open>
  One request of the year search gets either an exception of the HTTP client or a
  response: a status code and a payload. The payload is what
  \<open>resp.json().get("esearchresult", {}).get("idlist", [])\<close> makes of it: the payload is
  not JSON (\<open>JSONDecodeError\<close>), it is JSON but not an object (\<open>AttributeError\<close>), or
  the identifier list is read (empty when a key is missing).
\<close>

datatype payload = NotJson | NotAnObject | Idlist "string list"

record response =
  status_code :: nat
  content :: payload

datatype log_line = Warning_429 nat nat | Error_http nat | Error_retries nat

text \<open>\<open>resp.raise_for_status()\<close> raises \<open>HTTPError\<close> for a status from 400 to 599.\<close>

definition raises_for_status :: "response \<Rightarrow> bool" where
  "raises_for_status resp \<longleftrightarrow> 400 \<le> status_code resp \<and> status_code resp < 600"

text \<open>
  The retry loop of \<open>_search_year\<close>, from attempt \<open>attempt\<close> with \<open>k\<close> attempts left;
  \<open>get a\<close> is the outcome of the request of attempt \<open>a\<close>. The result is the lines
  logged and either the exception that reaches the caller or the list returned.
\<close>

fun search_attempts ::
  "(nat \<Rightarrow> py_error + response) \<Rightarrow> nat \<Rightarrow> nat \<Rightarrow> nat \<Rightarrow> log_line list \<times> (py_error + string list)" where
  "search_attempts get max_retries attempt 0 = ([Error_retries max_retries], Inr [])"
| "search_attempts get max_retries attempt (Suc k) =
     (case get attempt of
        Inl err \<Rightarrow> ([], Inl err)
      | Inr resp \<Rightarrow>
          if status_code resp = 429 then
            (case search_attempts get max_retries (attempt + 1) k of
               (lg, res) \<Rightarrow> (Warning_429 attempt (2 ^ attempt) # lg, res))
          else if raises_for_status resp then ([Error_http (status_code resp)], Inr [])
          else (case content resp of
                  NotJson \<Rightarrow> ([], Inl JSONDecodeError)
                | NotAnObject \<Rightarrow> ([], Inl AttributeError)
                | Idlist ids \<Rightarrow> ([], Inr ids)))"

definition search_year ::
  "(nat \<Rightarrow> py_error + response) \<Rightarrow> nat \<Rightarrow> log_line list \<times> (py_error + string list)" where
  "search_year get max_retries = search_attempts get max_retries 1 max_retries"

text \<open>
  The cache file of a term: \<open>{"completed_years": [...], "records": [...]}\<close>. The file may
  be absent; \<open>_load_data\<close> then gives the empty state.
\<close>

record term_data =
  completed_years :: "int list"
  records :: "pubmed_record list"

definition load_data :: "term_data option \<Rightarrow> term_data" where
  "load_data file = (case file of None \<Rightarrow> \<lparr>completed_years = [], records = []\<rparr> | Some data \<Rightarrow> data)"

text \<open>
  The body of the loop over the years of \<open>retrieve_full_data\<close>. The state is
  \<open>(data, existing, updated)\<close>. \<open>cur\<close> is the calendar year (\<open>datetime.now().year\<close>, taken
  to be the same throughout a run), \<open>done_years\<close> the set computed before the loop,
  \<open>search y\<close> the outcome of \<open>_search_year(term, y)\<close> and \<open>fetch ids\<close> that of
  \<open>_fetch_pmids(ids, BATCH_SIZE)\<close>; either may raise.
\<close>

type_synonym retrieval_state = "term_data \<times> string set \<times> bool"

definition mark_completed :: "int \<Rightarrow> bool \<Rightarrow> retrieval_state \<Rightarrow> retrieval_state" where
  "mark_completed y is_current s =
     (case s of (data, existing, updated) \<Rightarrow>
        if \<not> is_current
        then (data\<lparr>completed_years := completed_years data @ [y]\<rparr>, existing, True)
        else s)"

definition year_body ::
  "int \<Rightarrow> int set \<Rightarrow> (int \<Rightarrow> py_error + string list) \<Rightarrow>
   (string list \<Rightarrow> py_error + pubmed_record list) \<Rightarrow> int \<Rightarrow> retrieval_state \<Rightarrow>
   py_error + retrieval_state" where
  "year_body cur done_years search fetch y s =
     (case s of (data, existing, updated) \<Rightarrow>
      let is_current = (y = cur) in
      if y \<in> done_years \<and> \<not> is_current then Inr s
      else
        case search y of
          Inl err \<Rightarrow> Inl err
        | Inr ids \<Rightarrow>
            if ids = [] then Inr (mark_completed y is_current s)
            else
              let new_pmids = filter (\<lambda>p. p \<notin> existing) ids in
              if new_pmids = [] then Inr (mark_completed y is_current s)
              else
                case fetch new_pmids of
                  Inl err \<Rightarrow> Inl err
                | Inr recs \<Rightarrow>
                    let data1 = data\<lparr>records := records data @ recs\<rparr>;
                        existing1 = existing \<union> set new_pmids;
                        data2 = (if \<not> is_current
                                 then data1\<lparr>completed_years := completed_years data1 @ [y]\<rparr>
                                 else data1)
                    in Inr (data2, existing1, True))"

fun retrieve_loop ::
  "int \<Rightarrow> int set \<Rightarrow> (int \<Rightarrow> py_error + string list) \<Rightarrow>
   (string list \<Rightarrow> py_error + pubmed_record list) \<Rightarrow> int list \<Rightarrow> retrieval_state \<Rightarrow>
   py_error + retrieval_state" where
  "retrieve_loop cur done_years search fetch [] s = Inr s"
| "retrieve_loop cur done_years search fetch (y # ys) s =
     (case year_body cur done_years search fetch y s of
        Inl err \<Rightarrow> Inl err
      | Inr s' \<Rightarrow> retrieve_loop cur done_years search fetch ys s')"

text \<open>\<open>end_year = end_year or datetime.now().year\<close>: an absent or zero end year is the
  calendar year. The loop runs over \<open>range(start_year, end_year + 1)\<close>.\<close>

definition year_range :: "int \<Rightarrow> int \<Rightarrow> int option \<Rightarrow> int list" where
  "year_range cur start_year end_year =
     [start_year .. (case end_year of None \<Rightarrow> cur | Some e \<Rightarrow> if e = 0 then cur else e)]"

text \<open>
  \<open>retrieve_full_data\<close>: from the cache file before the run to the cache file after it and
  the outcome of the call (the records returned, or the exception that ends the run before
  anything is written).
\<close>

definition retrieve_full_data ::
  "int \<Rightarrow> (int \<Rightarrow> py_error + string list) \<Rightarrow>
   (string list \<Rightarrow> py_error + pubmed_record list) \<Rightarrow> int \<Rightarrow> int option \<Rightarrow>
   term_data option \<Rightarrow> term_data option \<times> (py_error + pubmed_record list)" where
  "retrieve_full_data cur search fetch start_year end_year file =
     (let data = load_data file;
          done_years = set (completed_years data);
          existing = set (map pmid (records data))
      in case retrieve_loop cur done_years search fetch
                (year_range cur start_year end_year) (data, existing, False) of
           Inl err \<Rightarrow> (file, Inl err)
         | Inr (data', existing', updated) \<Rightarrow>
             (if updated then Some data' else file, Inr (records data')))"

section \<open>Notions of the statements\<close>

text \<open>
  The definitions above follow the source. Those of this section are not in the source:
  they name what the theorems say of it.
\<close>

text \<open>The evidence of a gene and a disease in a list of pairs: the document id and the year
  of each pair of that gene and disease, in the order of the list.\<close>

definition evidence :: "pair list \<Rightarrow> string \<Rightarrow> string \<Rightarrow> (string \<times> string) list" where
  "evidence prs g d =
     map (\<lambda>(p, g', d', y). (p, y)) (filter (\<lambda>(p, g', d', y). g' = g \<and> d' = d) prs)"

text \<open>What holds of the graph after any number of pairs: the node ids are distinct and each
  carries the type of the identifier it is; each edge joins a valid gene to a valid disease,
  both nodes of the graph, and its lists are the evidence so far; no two edges join the
  same gene and disease; each valid pair so far has its edge.\<close>

definition typed_node :: "string \<times> string option \<Rightarrow> bool" where
  "typed_node nt \<longleftrightarrow>
     (snd nt = Some ''gene'' \<and> is_valid_gene_id (fst nt)) \<or>
     (snd nt = Some ''disease'' \<and> is_valid_disease_id (fst nt))"

definition edge_ok :: "pair list \<Rightarrow> graph \<Rightarrow> edge \<Rightarrow> bool" where
  "edge_ok prs G e \<longleftrightarrow>
     is_valid_gene_id (eu e) \<and> is_valid_disease_id (ev e) \<and>
     has_node G (eu e) \<and> has_node G (ev e) \<and>
     pmids e = map fst (evidence prs (eu e) (ev e)) \<and>
     years e = map snd (evidence prs (eu e) (ev e)) \<and>
     evidence prs (eu e) (ev e) \<noteq> []"

definition build_inv :: "pair list \<Rightarrow> graph \<Rightarrow> bool" where
  "build_inv prs G \<longleftrightarrow>
     distinct (map fst (nodes G)) \<and>
     list_all typed_node (nodes G) \<and>
     list_all (edge_ok prs G) (edges G) \<and>
     distinct (map (\<lambda>e. (eu e, ev e)) (edges G)) \<and>
     list_all (\<lambda>(p, g, d, y). is_valid_gene_id g \<and> is_valid_disease_id d \<longrightarrow>
                 list_ex (\<lambda>e. eu e = g \<and> ev e = d) (edges G)) prs"

text \<open>The elements of a list in order of first occurrence, and the first year of a list among
  those that occur most often in it.\<close>

definition first_occ :: "'a list \<Rightarrow> 'a list" where
  "first_occ ys = rev (remdups (rev ys))"

definition first_peak :: "int list \<Rightarrow> int" where
  "first_peak ys = hd (filter (\<lambda>y. list_all (\<lambda>z. count_list ys z \<le> count_list ys y) ys) ys)"






text \<open>The request of attempt \<open>a\<close> is answered with status 429.\<close>

definition rate_limited :: "(nat \<Rightarrow> py_error + response) \<Rightarrow> nat \<Rightarrow> bool" where
  "rate_limited get a \<longleftrightarrow> (\<exists>r. get a = Inr r \<and> status_code r = 429)"

text \<open>The years of the loop for which a search is issued: those that are not skipped as
  already done.\<close>

definition processed_years :: "int \<Rightarrow> int set \<Rightarrow> int list \<Rightarrow> int list" where
  "processed_years cur done_years ys = filter (\<lambda>y. \<not> (y \<in> done_years \<and> y \<noteq> cur)) ys"

section \<open>Concrete inputs\<close>






definition get_always_429 :: "nat \<Rightarrow> py_error + response" where
  "get_always_429 a = Inr \<lparr>status_code = 429, content = NotJson\<rparr>"

definition get_429_then_500 :: "nat \<Rightarrow> py_error + response" where
  "get_429_then_500 a =
     (if a = 1 then Inr \<lparr>status_code = 429, content = NotJson\<rparr>
      else Inr \<lparr>status_code = 500, content = NotJson\<rparr>)"

definition search_ex :: "int \<Rightarrow> py_error + string list" where
  "search_ex y = (if y = 2022 then Inr [] else Inr [''100''])"

definition fetch_ex :: "string list \<Rightarrow> py_error + pubmed_record list" where
  "fetch_ex ids = Inr (map (\<lambda>i. \<lparr>pmid = i, title = ''t'', abstract = ''a'', year = ''2023''\<rparr>) ids)"

definition cache_ex :: term_data where
  "cache_ex = \<lparr>completed_years = [2022, 2023],
               records = [\<lparr>pmid = ''100'', title = ''t'', abstract = ''a'', year = ''2023''\<rparr>]\<rparr>"

definition pairs_ex :: "pair list" where
  "pairs_ex = [(''p1'', ''1'', ''D000001'', ''2000''), (''p2'', ''2'', ''MESH:D000002'', ''2001''),
               (''p0'', ''ABC'', ''D000001'', ''1999''), (''p3'', ''1'', ''D000001'', ''1999'')]"

definition graph_ex :: graph where
  "graph_ex =
     \<lparr>nodes = [(''1'', Some ''gene''), (''D000001'', Some ''disease''),
               (''2'', Some ''gene''), (''MESH:D000002'', Some ''disease'')],
      edges = [\<lparr>eu = ''1'', ev = ''D000001'', pmids = [''p1'', ''p3''], years = [''2000'', ''1999'']\<rparr>,
               \<lparr>eu = ''2'', ev = ''MESH:D000002'', pmids = [''p2''], years = [''2001'']\<rparr>]\<rparr>"

definition stats_pairs_ex :: "pair list" where
  "stats_pairs_ex = [(''p1'', ''1'', ''D000001'', ''2000''), (''p2'', ''1'', ''D000001'', ''2000''),
                     (''p3'', ''1'', ''D000001'', ''2001'')]"

definition stats_edge_ex :: edge where
  "stats_edge_ex = \<lparr>eu = ''1'', ev = ''D000001'', pmids = [''p1'', ''p2'', ''p3''],
                     years = [''2000'', ''2000'', ''2001'']\<rparr>"

definition stats_graph_ex :: graph where
  "stats_graph_ex =
     \<lparr>nodes = [(''1'', Some ''gene''), (''D000001'', Some ''disease'')],
      edges = [stats_edge_ex]\<rparr>"





section \<open>Properties of pair extraction\<close>









lemma filter_concat_map:
  "filter P (concat (map f xs)) = concat (map (\<lambda>x. filter P (f x)) xs)"
  by (induction xs) auto














section \<open>Properties of the year search\<close>

lemma search_attempts_all_limited:
  "(\<And>a. attempt \<le> a \<Longrightarrow> a < attempt + k \<Longrightarrow> rate_limited get a) \<Longrightarrow>
   search_attempts get m attempt k =
     (map (\<lambda>a. Warning_429 a (2 ^ a)) [attempt ..< attempt + k] @ [Error_retries m], Inr [])"
proof (induction k arbitrary: attempt)
  case 0
  then show ?case by simp
next
  case (Suc k)
  have "rate_limited get attempt" by (rule Suc.prems) simp_all
  then obtain r where r: "get attempt = Inr r" "status_code r = 429"
    by (auto simp: rate_limited_def)
  have "search_attempts get m (attempt + 1) k =
     (map (\<lambda>a. Warning_429 a (2 ^ a)) [attempt + 1 ..< attempt + 1 + k] @ [Error_retries m], Inr [])"
    by (rule Suc.IH) (simp_all add: Suc.prems)
  then show ?case
    using r by (simp add: upt_rec [of attempt])
qed

lemma search_attempts_http_error:
  "(\<And>a. attempt \<le> a \<Longrightarrow> a < attempt + j \<Longrightarrow> rate_limited get a) \<Longrightarrow> j < k \<Longrightarrow>
   get (attempt + j) = Inr r \<Longrightarrow> status_code r \<noteq> 429 \<Longrightarrow> raises_for_status r \<Longrightarrow>
   search_attempts get m attempt k =
     (map (\<lambda>a. Warning_429 a (2 ^ a)) [attempt ..< attempt + j] @ [Error_http (status_code r)], Inr [])"
proof (induction j arbitrary: attempt k)
  case 0
  then obtain k' where "k = Suc k'" by (cases k) auto
  with 0 show ?case by simp
next
  case (Suc j)
  from Suc.prems(2) obtain k' where k: "k = Suc k'" "j < k'" by (cases k) auto
  have "rate_limited get attempt" by (rule Suc.prems) simp_all
  then obtain r0 where r0: "get attempt = Inr r0" "status_code r0 = 429"
    by (auto simp: rate_limited_def)
  have "search_attempts get m (attempt + 1) k' =
     (map (\<lambda>a. Warning_429 a (2 ^ a)) [attempt + 1 ..< attempt + 1 + j] @ [Error_http (status_code r)], Inr [])"
    using Suc.prems k by (intro Suc.IH) simp_all
  then show ?case
    using r0 k by (simp add: upt_rec [of attempt])
qed

lemma search_attempts_raises:
  "snd (search_attempts get m attempt k) = Inl err \<Longrightarrow>
   \<exists>a. attempt \<le> a \<and> a < attempt + k \<and>
     (get a = Inl err \<or>
      (\<exists>r. get a = Inr r \<and> status_code r \<noteq> 429 \<and> \<not> raises_for_status r \<and>
           (content r = NotJson \<and> err = JSONDecodeError \<or>
            content r = NotAnObject \<and> err = AttributeError)))"
proof (induction k arbitrary: attempt)
  case 0
  then show ?case by simp
next
  case (Suc k)
  show ?case
  proof (cases "get attempt")
    case (Inl e)
    with Suc.prems have "e = err" by simp
    with Inl show ?thesis by (intro exI [of _ attempt]) simp
  next
    case (Inr r)
    show ?thesis
    proof (cases "status_code r = 429")
      case True
      with Inr Suc.prems have "snd (search_attempts get m (attempt + 1) k) = Inl err"
        by (simp split: prod.splits)
      from Suc.IH [OF this] obtain a where "attempt + 1 \<le> a" "a < attempt + 1 + k"
        "get a = Inl err \<or>
      (\<exists>r. get a = Inr r \<and> status_code r \<noteq> 429 \<and> \<not> raises_for_status r \<and>
           (content r = NotJson \<and> err = JSONDecodeError \<or>
            content r = NotAnObject \<and> err = AttributeError))" by blast
      then show ?thesis by (intro exI [of _ a]) simp
    next
      case False
      with Inr Suc.prems show ?thesis
        by (intro exI [of _ attempt]) (auto split: if_splits payload.splits)
    qed
  qed
qed

text \<open>
  C9. The year search does not raise for a rate limit or an HTTP failure. When every
  attempt up to the cap is answered with status 429, it logs a warning per attempt and an
  error, and returns the empty list. When the first answer that is not a 429 has a status
  from 400 to 599, it logs the error and returns the empty list. An exception reaches the
  caller only from the HTTP client itself or from a payload that cannot be read on a
  response that is neither a 429 nor an HTTP failure.
\<close>

theorem search_year_returns_empty_on_failure:
  "((\<forall>a. 1 \<le> a \<and> a \<le> m \<longrightarrow> rate_limited get a) \<longrightarrow>
      search_year get m =
        (map (\<lambda>a. Warning_429 a (2 ^ a)) [1 ..< Suc m] @ [Error_retries m], Inr []))
   \<and> (\<forall>j r. 1 \<le> j \<and> j \<le> m \<and> (\<forall>a. 1 \<le> a \<and> a < j \<longrightarrow> rate_limited get a) \<and>
            get j = Inr r \<and> status_code r \<noteq> 429 \<and> raises_for_status r \<longrightarrow>
      search_year get m =
        (map (\<lambda>a. Warning_429 a (2 ^ a)) [1 ..< j] @ [Error_http (status_code r)], Inr []))
   \<and> (\<forall>err. snd (search_year get m) = Inl err \<longrightarrow>
        (\<exists>a. 1 \<le> a \<and> a \<le> m \<and>
           (get a = Inl err \<or>
            (\<exists>r. get a = Inr r \<and> status_code r \<noteq> 429 \<and> \<not> raises_for_status r \<and>
                 (content r = NotJson \<and> err = JSONDecodeError \<or>
                  content r = NotAnObject \<and> err = AttributeError)))))"
proof (intro conjI allI impI)
  assume "\<forall>a. 1 \<le> a \<and> a \<le> m \<longrightarrow> rate_limited get a"
  then have "search_attempts get m 1 m =
     (map (\<lambda>a. Warning_429 a (2 ^ a)) [1 ..< 1 + m] @ [Error_retries m], Inr [])"
    by (intro search_attempts_all_limited) simp
  then show "search_year get m =
        (map (\<lambda>a. Warning_429 a (2 ^ a)) [1 ..< Suc m] @ [Error_retries m], Inr [])"
    by (simp add: search_year_def)
next
  fix j r
  assume h: "1 \<le> j \<and> j \<le> m \<and> (\<forall>a. 1 \<le> a \<and> a < j \<longrightarrow> rate_limited get a) \<and>
            get j = Inr r \<and> status_code r \<noteq> 429 \<and> raises_for_status r"
  then obtain i where i: "j = 1 + i" "i < m"
    by (cases j) auto
  have "search_attempts get m 1 m =
     (map (\<lambda>a. Warning_429 a (2 ^ a)) [1 ..< 1 + i] @ [Error_http (status_code r)], Inr [])"
    using h i by (intro search_attempts_http_error) simp_all
  then show "search_year get m =
        (map (\<lambda>a. Warning_429 a (2 ^ a)) [1 ..< j] @ [Error_http (status_code r)], Inr [])"
    by (simp add: search_year_def i)
next
  fix err
  assume "snd (search_year get m) = Inl err"
  then have "snd (search_attempts get m 1 m) = Inl err"
    by (simp add: search_year_def)
  from search_attempts_raises [OF this]
  show "\<exists>a. 1 \<le> a \<and> a \<le> m \<and>
           (get a = Inl err \<or>
            (\<exists>r. get a = Inr r \<and> status_code r \<noteq> 429 \<and> \<not> raises_for_status r \<and>
                 (content r = NotJson \<and> err = JSONDecodeError \<or>
                  content r = NotAnObject \<and> err = AttributeError)))"
    by (auto simp: less_Suc_eq_le)
qed

theorem search_year_returns_empty_on_failure_witness:
  "search_year get_always_429 3 =
     ([Warning_429 1 2, Warning_429 2 4, Warning_429 3 8, Error_retries 3], Inr [])
   \<and> search_year get_429_then_500 3 = ([Warning_429 1 2, Error_http 500], Inr [])"
proof -
  have a: "\<forall>a. 1 \<le> a \<and> a \<le> 3 \<longrightarrow> rate_limited get_always_429 a"
    by (simp add: rate_limited_def get_always_429_def)
  have b: "1 \<le> (2::nat) \<and> (2::nat) \<le> 3 \<and>
      (\<forall>a. 1 \<le> a \<and> a < 2 \<longrightarrow> rate_limited get_429_then_500 a) \<and>
      get_429_then_500 2 = Inr \<lparr>status_code = 500, content = NotJson\<rparr> \<and>
      status_code \<lparr>status_code = 500, content = NotJson\<rparr> \<noteq> 429 \<and>
      raises_for_status \<lparr>status_code = 500, content = NotJson\<rparr>"
    by (auto simp: rate_limited_def get_429_then_500_def raises_for_status_def)
  have 1: "search_year get_always_429 3 =
      (map (\<lambda>a. Warning_429 a (2 ^ a)) [1 ..< Suc 3] @ [Error_retries 3], Inr [])"
    using search_year_returns_empty_on_failure [of 3 get_always_429] a by blast
  have 2: "search_year get_429_then_500 3 =
      (map (\<lambda>a. Warning_429 a (2 ^ a)) [1 ..< 2] @
         [Error_http (status_code \<lparr>status_code = 500, content = NotJson\<rparr>)], Inr [])"
    using search_year_returns_empty_on_failure [of 3 get_429_then_500] b by blast
  have "[1 ..< Suc 3] = [1, 2, 3]" "[1 ..< (2::nat)] = [1]"
    by (simp_all add: upt_rec)
  with 1 2 show ?thesis
    by simp
qed

section \<open>Properties of retrieval\<close>

lemma year_body_effect:
  assumes "year_body cur dn search fetch y (data, ex, upd) = Inr (data', ex', upd')"
  shows "completed_years data' = completed_years data @ (if y \<notin> dn \<and> y \<noteq> cur then [y] else [])"
    and "\<not> upd' \<Longrightarrow> data' = data \<and> ex' = ex \<and> \<not> upd"
  using assms
  by (auto simp: year_body_def mark_completed_def Let_def
      split: if_splits sum.splits)

lemma retrieve_loop_effect:
  "retrieve_loop cur dn search fetch ys (data, ex, upd) = Inr (data', ex', upd') \<Longrightarrow>
   completed_years data' = completed_years data @ filter (\<lambda>y. y \<notin> dn \<and> y \<noteq> cur) ys
   \<and> (\<not> upd' \<longrightarrow> data' = data \<and> ex' = ex \<and> \<not> upd)"
proof (induction ys arbitrary: data ex upd)
  case Nil
  then show ?case by simp
next
  case (Cons y ys)
  from Cons.prems obtain s1 where
    s1: "year_body cur dn search fetch y (data, ex, upd) = Inr s1"
    and rest: "retrieve_loop cur dn search fetch ys s1 = Inr (data', ex', upd')"
    by (auto split: sum.splits)
  obtain d1 e1 u1 where s1_eq: "s1 = (d1, e1, u1)" by (cases s1)
  note yb = year_body_effect [OF s1 [unfolded s1_eq]]
  note ih = Cons.IH [OF rest [unfolded s1_eq]]
  show ?case
    using yb ih by auto
qed

lemma filter_processed:
  "filter (\<lambda>y. y \<noteq> cur) (processed_years cur dn ys) = filter (\<lambda>y. y \<notin> dn \<and> y \<noteq> cur) ys"
  by (induction ys) (auto simp: processed_years_def)

lemma year_body_stable:
  assumes "y \<noteq> cur \<longrightarrow> y \<in> dn"
    and "\<And>ids. search y = Inr ids \<Longrightarrow> set ids \<subseteq> ex"
  shows "year_body cur dn search fetch y (data, ex, upd) = Inr (data, ex, upd) \<or>
         (\<exists>err. year_body cur dn search fetch y (data, ex, upd) = Inl err \<and> y = cur \<and> search cur = Inl err)"
proof (cases "y = cur")
  case False
  with assms(1) show ?thesis by (simp add: year_body_def)
next
  case True
  show ?thesis
  proof (cases "search y")
    case (Inl err)
    with True show ?thesis by (simp add: year_body_def)
  next
    case (Inr ids)
    from assms(2) [OF Inr] have "filter (\<lambda>p. p \<notin> ex) ids = []"
      by (auto simp: filter_empty_conv)
    with True Inr show ?thesis
      by (simp add: year_body_def mark_completed_def Let_def)
  qed
qed

lemma retrieve_loop_stable:
  assumes "\<And>y. y \<in> set ys \<Longrightarrow> y \<noteq> cur \<Longrightarrow> y \<in> dn"
    and "\<And>y ids. y \<in> set ys \<Longrightarrow> search y = Inr ids \<Longrightarrow> set ids \<subseteq> ex"
  shows "retrieve_loop cur dn search fetch ys (data, ex, upd) = Inr (data, ex, upd) \<or>
         (\<exists>err. retrieve_loop cur dn search fetch ys (data, ex, upd) = Inl err \<and> search cur = Inl err)"
  using assms
proof (induction ys)
  case Nil
  then show ?case by simp
next
  case (Cons y ys)
  have "year_body cur dn search fetch y (data, ex, upd) = Inr (data, ex, upd) \<or>
         (\<exists>err. year_body cur dn search fetch y (data, ex, upd) = Inl err \<and> y = cur \<and> search cur = Inl err)"
    by (rule year_body_stable) (use Cons.prems in auto)
  moreover have "retrieve_loop cur dn search fetch ys (data, ex, upd) = Inr (data, ex, upd) \<or>
         (\<exists>err. retrieve_loop cur dn search fetch ys (data, ex, upd) = Inl err \<and> search cur = Inl err)"
    by (rule Cons.IH) (use Cons.prems in auto)
  ultimately show ?case by auto
qed


lemma retrieve_full_data_normal:
  assumes "retrieve_full_data cur search fetch start ey file = (file', Inr rs)"
  shows "\<exists>data' ex' upd'.
           retrieve_loop cur (set (completed_years (load_data file))) search fetch
             (year_range cur start ey)
             (load_data file, set (map pmid (records (load_data file))), False)
             = Inr (data', ex', upd')
           \<and> load_data file' = data' \<and> rs = records data'
           \<and> file' = (if upd' then Some data' else file)"
proof -
  let ?loop = "retrieve_loop cur (set (completed_years (load_data file))) search fetch
             (year_range cur start ey)
             (load_data file, set (map pmid (records (load_data file))), False)"
  from assms obtain data' ex' upd' where
    loop: "?loop = Inr (data', ex', upd')"
    and f': "file' = (if upd' then Some data' else file)" and rs: "rs = records data'"
    by (auto simp: retrieve_full_data_def Let_def split: sum.splits prod.splits)
  from retrieve_loop_effect [OF loop] have "\<not> upd' \<longrightarrow> data' = load_data file"
    by simp
  with f' have "load_data file' = data'"
    by (auto simp: load_data_def)
  with loop f' rs show ?thesis by blast
qed

lemma retrieve_full_data_abort:
  "retrieve_full_data cur search fetch start ey file = (file', Inl err) \<Longrightarrow> file' = file"
  by (auto simp: retrieve_full_data_def Let_def split: sum.splits prod.splits)

lemma range_ex: "year_range 2024 2022 None = [2022, 2023, 2024]"
  by (simp add: year_range_def upto_rec_numeral)

lemma run_ex:
  "retrieve_full_data 2024 search_ex fetch_ex 2022 None None =
     (Some cache_ex, Inr (records cache_ex))"
  by (simp add: retrieve_full_data_def range_ex load_data_def year_body_def
      mark_completed_def Let_def search_ex_def fetch_ex_def cache_ex_def)

text \<open>
  C3. A run of retrieval never adds the current calendar year to \<open>completed_years\<close> of the
  cache file, whatever the searches return: the number of its occurrences is unchanged.
  When the run returns, the completed years after it are those before it followed by
  every year for which a search was issued other than the current one; when the run is
  ended by an exception, the file is as before.
\<close>

theorem current_year_never_completed:
  "(\<forall>rs. snd (retrieve_full_data cur search fetch start ey file) = Inr rs \<longrightarrow>
      completed_years (load_data (fst (retrieve_full_data cur search fetch start ey file))) =
        completed_years (load_data file) @
        filter (\<lambda>y. y \<noteq> cur)
          (processed_years cur (set (completed_years (load_data file)))
             (year_range cur start ey)))
   \<and> (\<forall>err. snd (retrieve_full_data cur search fetch start ey file) = Inl err \<longrightarrow>
        fst (retrieve_full_data cur search fetch start ey file) = file)
   \<and> count_list
        (completed_years (load_data (fst (retrieve_full_data cur search fetch start ey file)))) cur
      = count_list (completed_years (load_data file)) cur"
proof -
  obtain file' out where run: "retrieve_full_data cur search fetch start ey file = (file', out)"
    by (cases "retrieve_full_data cur search fetch start ey file")
  have normal: "completed_years (load_data file') =
        completed_years (load_data file) @
        filter (\<lambda>y. y \<noteq> cur)
          (processed_years cur (set (completed_years (load_data file)))
             (year_range cur start ey))" if "out = Inr rs" for rs
  proof -
    from retrieve_full_data_normal [OF run [unfolded that]]
    obtain data' ex' upd' where
      loop: "retrieve_loop cur (set (completed_years (load_data file))) search fetch
             (year_range cur start ey)
             (load_data file, set (map pmid (records (load_data file))), False)
             = Inr (data', ex', upd')"
      and ld: "load_data file' = data'" by blast
    from retrieve_loop_effect [OF loop] ld show ?thesis
      by (simp add: filter_processed)
  qed
  have abort: "file' = file" if "out = Inl err" for err
    using run that by (auto dest: retrieve_full_data_abort)
  have "count_list (completed_years (load_data file')) cur
      = count_list (completed_years (load_data file)) cur"
  proof (cases out)
    case (Inl err)
    with abort show ?thesis by simp
  next
    case (Inr rs)
    have "count_list (filter (\<lambda>y. y \<noteq> cur) zs) cur = 0" for zs :: "int list"
      by (induction zs) auto
    with normal [OF Inr] show ?thesis by simp
  qed
  with normal abort show ?thesis
    by (simp add: run)
qed

theorem current_year_never_completed_witness:
  "completed_years (load_data (fst (retrieve_full_data 2024 search_ex fetch_ex 2022 None None)))
     = [2022, 2023]
   \<and> count_list
       (completed_years (load_data (fst (retrieve_full_data 2024 search_ex fetch_ex 2022 None None))))
       2024 = 0"
proof -
  have "snd (retrieve_full_data 2024 search_ex fetch_ex 2022 None None) = Inr (records cache_ex)"
    by (simp add: run_ex)
  with current_year_never_completed [of 2024 search_ex fetch_ex 2022 None None]
  have "completed_years (load_data (fst (retrieve_full_data 2024 search_ex fetch_ex 2022 None None)))
     = completed_years (load_data None) @
        filter (\<lambda>y. y \<noteq> 2024)
          (processed_years 2024 (set (completed_years (load_data None)))
             (year_range 2024 2022 None))"
    and "count_list
       (completed_years (load_data (fst (retrieve_full_data 2024 search_ex fetch_ex 2022 None None))))
       2024 = count_list (completed_years (load_data None)) 2024"
    by blast+
  then show ?thesis
    by (simp add: range_ex load_data_def processed_years_def)
qed

text \<open>
  C6. A second run of retrieval, in the same calendar year and for the same year range,
  right after a run that returned, leaves the cache file as the first run left it when
  its searches return no identifier that is not already the id of a cached record; it
  returns the same records (or is ended by an exception of the search of the current
  year), and the ids of the cached records are distinct after it if they were before.
\<close>

theorem retrieve_twice_unchanged:
  assumes run1: "retrieve_full_data cur search1 fetch1 start ey file0 = (file1, Inr rs1)"
    and no_new: "\<forall>y ids. y \<in> set (year_range cur start ey) \<and> search2 y = Inr ids \<longrightarrow>
                   set ids \<subseteq> set (map pmid (records (load_data file1)))"
  shows "fst (retrieve_full_data cur search2 fetch2 start ey file1) = file1
       \<and> (snd (retrieve_full_data cur search2 fetch2 start ey file1) = Inr rs1 \<or>
          (\<exists>err. snd (retrieve_full_data cur search2 fetch2 start ey file1) = Inl err \<and>
                 search2 cur = Inl err))
       \<and> (distinct (map pmid (records (load_data file1))) \<longrightarrow>
            distinct (map pmid (records (load_data
              (fst (retrieve_full_data cur search2 fetch2 start ey file1))))))"
proof -
  let ?data1 = "load_data file1"
  let ?ys = "year_range cur start ey"
  from retrieve_full_data_normal [OF run1]
  obtain ex' upd' where
    loop1: "retrieve_loop cur (set (completed_years (load_data file0))) search1 fetch1 ?ys
             (load_data file0, set (map pmid (records (load_data file0))), False)
             = Inr (?data1, ex', upd')"
    and rs1: "rs1 = records ?data1" by auto
  from retrieve_loop_effect [OF loop1]
  have cy: "completed_years ?data1 = completed_years (load_data file0) @
          filter (\<lambda>y. y \<notin> set (completed_years (load_data file0)) \<and> y \<noteq> cur) ?ys"
    by simp
  have done1: "y \<in> set (completed_years ?data1)" if "y \<in> set ?ys" "y \<noteq> cur" for y
    using that unfolding cy by auto
  have "retrieve_loop cur (set (completed_years ?data1)) search2 fetch2 ?ys
          (?data1, set (map pmid (records ?data1)), False)
          = Inr (?data1, set (map pmid (records ?data1)), False) \<or>
        (\<exists>err. retrieve_loop cur (set (completed_years ?data1)) search2 fetch2 ?ys
          (?data1, set (map pmid (records ?data1)), False) = Inl err \<and> search2 cur = Inl err)"
    by (rule retrieve_loop_stable) (use done1 no_new in blast)+
  then have "retrieve_full_data cur search2 fetch2 start ey file1 = (file1, Inr rs1) \<or>
     (\<exists>err. retrieve_full_data cur search2 fetch2 start ey file1 = (file1, Inl err) \<and>
            search2 cur = Inl err)"
    by (auto simp: retrieve_full_data_def Let_def rs1)
  then show ?thesis by auto
qed

theorem retrieve_twice_unchanged_witness:
  "retrieve_full_data 2024 search_ex fetch_ex 2022 None None
     = (Some cache_ex, Inr (records cache_ex))
   \<and> fst (retrieve_full_data 2024 search_ex fetch_ex 2022 None (Some cache_ex)) = Some cache_ex
   \<and> snd (retrieve_full_data 2024 search_ex fetch_ex 2022 None (Some cache_ex))
       = Inr (records cache_ex)"
proof -
  have h: "\<forall>y ids. y \<in> set (year_range 2024 2022 None) \<and> search_ex y = Inr ids \<longrightarrow>
             set ids \<subseteq> set (map pmid (records (load_data (Some cache_ex))))"
    by (auto simp: search_ex_def load_data_def cache_ex_def split: if_splits)
  have ok: "search_ex 2024 = Inr [''100'']"
    by (simp add: search_ex_def)
  from retrieve_twice_unchanged [OF run_ex h, of fetch_ex] ok run_ex
  show ?thesis by auto
qed

section \<open>Properties of graph construction\<close>

lemma gene_not_disease: "is_valid_gene_id s \<Longrightarrow> \<not> is_valid_disease_id s"
  by (cases s)
    (auto simp: is_valid_gene_id_def is_valid_disease_id_def isdigit_def startswith_def
      is_digit_char_def)

lemma dict_set_new: "k \<notin> set (map fst kvs) \<Longrightarrow> dict_set kvs k v = kvs @ [(k, v)]"
  by (induction kvs) auto

lemma add_node_new:
  "\<not> has_node G n \<Longrightarrow> add_node G n ty = G\<lparr>nodes := nodes G @ [(n, Some ty)]\<rparr>"
  by (simp add: add_node_def has_node_def dict_set_new)

lemma evidence_snoc:
  "evidence (prs @ [(p, g, d, y)]) g' d' =
     evidence prs g' d' @ (if g = g' \<and> d = d' then [(p, y)] else [])"
  by (simp add: evidence_def)

lemma joins_typed:
  "is_valid_gene_id (eu e) \<Longrightarrow> is_valid_disease_id (ev e) \<Longrightarrow>
   is_valid_gene_id g \<Longrightarrow> is_valid_disease_id d \<Longrightarrow>
   joins e g d \<longleftrightarrow> eu e = g \<and> ev e = d"
  by (auto simp: joins_def dest: gene_not_disease)

lemma build_inv_empty: "build_inv [] empty_graph"
  by (simp add: build_inv_def empty_graph_def)

lemma build_step_invalid:
  "\<not> is_valid_gene_id g \<or> \<not> is_valid_disease_id d \<Longrightarrow>
   build_step (G, k) (p, g, d, y) = (G, k + 1)"
  by (simp add: build_step_def)

lemma build_inv_invalid:
  assumes inv: "build_inv prs G" and bad: "\<not> is_valid_gene_id g \<or> \<not> is_valid_disease_id d"
  shows "build_inv (prs @ [(p, g, d, y)]) G"
proof -
  have "edge_ok (prs @ [(p, g, d, y)]) G e" if "edge_ok prs G e" for e
    using that bad by (auto simp: edge_ok_def evidence_snoc)
  then have "list_all (edge_ok (prs @ [(p, g, d, y)]) G) (edges G)"
    using inv by (auto simp: build_inv_def list_all_iff)
  with inv bad show ?thesis
    by (auto simp: build_inv_def)
qed

lemma ends_map_upd:
  "map (\<lambda>e. (eu e, ev e))
     (map (\<lambda>e. if P e then e\<lparr>pmids := f e, years := h e\<rparr> else e) es)
   = map (\<lambda>e. (eu e, ev e)) es"
  by (induction es) auto

lemma list_ex_map_upd:
  "list_ex (\<lambda>e. eu e = g' \<and> ev e = d')
     (map (\<lambda>e. if P e then e\<lparr>pmids := f e, years := h e\<rparr> else e) es)
   \<longleftrightarrow> list_ex (\<lambda>e. eu e = g' \<and> ev e = d') es"
  by (induction es) auto

lemma build_inv_valid:
  assumes inv: "build_inv prs G"
    and vg: "is_valid_gene_id g" and vd: "is_valid_disease_id d"
  shows "build_inv (prs @ [(p, g, d, y)]) (fst (build_step (G, k) (p, g, d, y)))"
proof -
  define G1 where "G1 = (if \<not> has_node G g then add_node G g ''gene'' else G)"
  define G2 where "G2 = (if \<not> has_node G1 d then add_node G1 d ''disease'' else G1)"
  let ?prs = "prs @ [(p, g, d, y)]"
  have step: "fst (build_step (G, k) (p, g, d, y)) =
      (if has_edge G2 g d then append_evidence G2 g d p y else add_edge G2 g d [p] [y])"
    using vg vd by (simp add: build_step_def G1_def G2_def Let_def)
  have e1: "edges G1 = edges G"
    by (simp add: G1_def add_node_def)
  have e2: "edges G2 = edges G"
    by (simp add: G2_def add_node_def e1)
  have n1: "nodes G1 = nodes G @ (if has_node G g then [] else [(g, Some ''gene'')])"
    by (simp add: G1_def add_node_new)
  have n2: "nodes G2 = nodes G1 @ (if has_node G1 d then [] else [(d, Some ''disease'')])"
    by (simp add: G2_def add_node_new)
  have dist1: "distinct (map fst (nodes G1))"
    using inv unfolding n1 by (auto simp: build_inv_def has_node_def)
  have dist2: "distinct (map fst (nodes G2))"
    using dist1 unfolding n2 by (auto simp: has_node_def)
  have typed1: "list_all typed_node (nodes G1)"
    using inv vg unfolding n1 by (auto simp: build_inv_def typed_node_def)
  have typed2: "list_all typed_node (nodes G2)"
    using typed1 vd unfolding n2 by (auto simp: typed_node_def)
  have hn1: "has_node G1 n" if "has_node G n" for n
    using that unfolding has_node_def n1 by auto
  have hn: "has_node G2 n" if "has_node G n" for n
    using hn1 [OF that] unfolding has_node_def n2 by auto
  have hg1: "has_node G1 g"
    unfolding has_node_def n1 by (auto simp: has_node_def)
  have hg: "has_node G2 g"
    using hg1 unfolding has_node_def n2 by auto
  have hd: "has_node G2 d"
    unfolding has_node_def n2 by (auto simp: has_node_def)
  have eok: "edge_ok prs G e" if "e \<in> set (edges G)" for e
    using inv that by (auto simp: build_inv_def list_all_iff)
  have jn: "joins e g d \<longleftrightarrow> eu e = g \<and> ev e = d" if "e \<in> set (edges G)" for e
    using eok [OF that] vg vd by (intro joins_typed) (auto simp: edge_ok_def)
  have he: "has_edge G2 g d \<longleftrightarrow> (\<exists>e\<in>set (edges G). eu e = g \<and> ev e = d)"
    by (auto simp: has_edge_def e2 list_ex_iff jn)
  have covered: "list_ex (\<lambda>e. eu e = g' \<and> ev e = d') (edges G)"
    if "(p', g', d', y') \<in> set prs" "is_valid_gene_id g'" "is_valid_disease_id d'"
    for p' g' d' y'
    using inv that by (auto simp: build_inv_def list_all_iff)
  show ?thesis
  proof (cases "has_edge G2 g d")
    case True
    let ?upd = "\<lambda>e. if joins e g d
                  then e\<lparr>pmids := pmids e @ [p], years := years e @ [y]\<rparr> else e"
    let ?G = "append_evidence G2 g d p y"
    have nodes': "nodes ?G = nodes G2" and edges': "edges ?G = map ?upd (edges G)"
      by (simp_all add: append_evidence_def e2)
    have ends: "map (\<lambda>e. (eu e, ev e)) (edges ?G) = map (\<lambda>e. (eu e, ev e)) (edges G)"
      unfolding edges' by (rule ends_map_upd)
    have ok': "(joins e g d \<longrightarrow>
            edge_ok ?prs ?G (e\<lparr>pmids := pmids e @ [p], years := years e @ [y]\<rparr>)) \<and>
          (\<not> joins e g d \<longrightarrow> edge_ok ?prs ?G e)" if "e \<in> set (edges G)" for e
      using eok [OF that] jn [OF that] hn
      by (auto simp: edge_ok_def evidence_snoc has_node_def nodes')
    have "list_all (edge_ok ?prs ?G) (edges ?G)"
      unfolding edges' using ok' by (auto simp: list_all_iff)
    moreover have "list_all (\<lambda>(p, g, d, y). is_valid_gene_id g \<and> is_valid_disease_id d \<longrightarrow>
                 list_ex (\<lambda>e. eu e = g \<and> ev e = d) (edges ?G)) ?prs"
    proof -
      have "list_ex (\<lambda>e. eu e = g' \<and> ev e = d') (edges ?G)
              \<longleftrightarrow> list_ex (\<lambda>e. eu e = g' \<and> ev e = d') (edges G)" for g' d'
        unfolding edges' by (rule list_ex_map_upd)
      moreover have "list_ex (\<lambda>e. eu e = g \<and> ev e = d) (edges G)"
        using True he by (auto simp: list_ex_iff)
      ultimately show ?thesis
        using covered by (auto simp: list_all_iff)
    qed
    ultimately show ?thesis
      using inv dist2 typed2 True
      by (simp add: step build_inv_def nodes' ends)
  next
    case False
    let ?new = "\<lparr>eu = g, ev = d, pmids = [p], years = [y]\<rparr>"
    let ?G = "add_edge G2 g d [p] [y]"
    have nodes': "nodes ?G = nodes G2" and edges': "edges ?G = edges G @ [?new]"
      using False hg hd by (simp_all add: add_edge_def ensure_node_def has_node_def e2)
    have none: "evidence prs g d = []"
    proof -
      have "\<not> (g' = g \<and> d' = d)" if "(p', g', d', y') \<in> set prs" for p' g' d' y'
        using covered [OF that] False he vg vd by (auto simp: list_ex_iff)
      then show ?thesis
        by (auto simp: evidence_def filter_empty_conv)
    qed
    have ok_old: "edge_ok ?prs ?G e" if "e \<in> set (edges G)" for e
    proof -
      have "\<not> (g = eu e \<and> d = ev e)"
        using False he that by auto
      with eok [OF that] hn show ?thesis
        by (auto simp: edge_ok_def evidence_snoc has_node_def nodes')
    qed
    have ok_new: "edge_ok ?prs ?G ?new"
      using vg vd hg hd by (simp add: edge_ok_def evidence_snoc none has_node_def nodes')
    have "list_all (edge_ok ?prs ?G) (edges ?G)"
      unfolding edges' using ok_old ok_new by (auto simp: list_all_iff)
    moreover have "distinct (map (\<lambda>e. (eu e, ev e)) (edges ?G))"
      unfolding edges' using inv False he by (auto simp: build_inv_def)
    moreover have "list_all (\<lambda>(p, g, d, y). is_valid_gene_id g \<and> is_valid_disease_id d \<longrightarrow>
                 list_ex (\<lambda>e. eu e = g \<and> ev e = d) (edges ?G)) ?prs"
      unfolding edges' using covered by (auto simp: list_all_iff list_ex_iff)
    ultimately show ?thesis
      using dist2 typed2 False
      by (simp add: step build_inv_def nodes')
  qed
qed

lemma build_inv_step:
  "build_inv prs G \<Longrightarrow> build_inv (prs @ [pr]) (fst (build_step (G, k) pr))"
proof -
  assume inv: "build_inv prs G"
  obtain p g d y where pr: "pr = (p, g, d, y)" by (cases pr)
  show ?thesis
  proof (cases "is_valid_gene_id g \<and> is_valid_disease_id d")
    case True
    with inv show ?thesis unfolding pr by (intro build_inv_valid) auto
  next
    case False
    then have "fst (build_step (G, k) (p, g, d, y)) = G"
      by (auto simp: build_step_invalid)
    with False inv show ?thesis
      unfolding pr by (auto intro: build_inv_invalid)
  qed
qed

lemma build_inv_build_graph: "build_inv prs (build_graph prs)"
proof (induction prs rule: rev_induct)
  case Nil
  then show ?case by (simp add: build_graph_def build_loop_def build_inv_empty)
next
  case (snoc pr prs)
  obtain G k where loop: "build_loop prs = (G, k)" by (cases "build_loop prs")
  with snoc have "build_inv prs G" by (simp add: build_graph_def)
  then have "build_inv (prs @ [pr]) (fst (build_step (G, k) pr))"
    by (rule build_inv_step)
  then show ?case
    using loop by (simp add: build_graph_def build_loop_def)
qed

lemma build_graph_ex: "build_graph pairs_ex = graph_ex"
  by (simp add: build_graph_def build_loop_def pairs_ex_def graph_ex_def build_step_def
      empty_graph_def is_valid_gene_id_def is_valid_disease_id_def isdigit_def
      is_digit_char_def startswith_def has_node_def add_node_def has_edge_def joins_def
      append_evidence_def add_edge_def ensure_node_def Let_def)

text \<open>
  C4. Every edge of the graph built from any list of pairs has evidence lists of the same
  length, not empty, and together they are the document ids and years of the occurrences
  of the edge's gene and disease in the input, one per occurrence, in arrival order: one
  occurrence gives singleton lists, and each further occurrence adds one element at the
  end of each list.
\<close>

theorem build_parallel_evidence:
  "\<forall>e \<in> set (edges (build_graph prs)).
     length (pmids e) = length (years e) \<and> pmids e \<noteq> [] \<and>
     zip (pmids e) (years e) = evidence prs (eu e) (ev e)"
proof
  fix e
  assume "e \<in> set (edges (build_graph prs))"
  with build_inv_build_graph [of prs] have "edge_ok prs (build_graph prs) e"
    by (simp add: build_inv_def list_all_iff)
  then show "length (pmids e) = length (years e) \<and> pmids e \<noteq> [] \<and>
     zip (pmids e) (years e) = evidence prs (eu e) (ev e)"
    by (simp add: edge_ok_def zip_map_fst_snd)
qed

theorem build_parallel_evidence_witness:
  "\<lparr>eu = ''1'', ev = ''D000001'', pmids = [''p1'', ''p3''], years = [''2000'', ''1999'']\<rparr>
      \<in> set (edges (build_graph pairs_ex)) \<and>
   evidence pairs_ex ''1'' ''D000001'' = [(''p1'', ''2000''), (''p3'', ''1999'')] \<and>
   zip [''p1'', ''p3''] [''2000'', ''1999''] = evidence pairs_ex ''1'' ''D000001''"
proof -
  let ?e = "\<lparr>eu = ''1'', ev = ''D000001'', pmids = [''p1'', ''p3''], years = [''2000'', ''1999'']\<rparr>"
  have mem: "?e \<in> set (edges (build_graph pairs_ex))"
    by (simp add: build_graph_ex graph_ex_def)
  have ev_ex: "evidence pairs_ex ''1'' ''D000001'' = [(''p1'', ''2000''), (''p3'', ''1999'')]"
    by (simp add: evidence_def pairs_ex_def)
  from build_parallel_evidence [of pairs_ex] mem
  have "zip (pmids ?e) (years ?e) = evidence pairs_ex (eu ?e) (ev ?e)"
    by blast
  with mem ev_ex show ?thesis by simp
qed

section \<open>Properties of the temporal analysis\<close>

lemma first_occ_snoc:
  "first_occ (ys @ [y]) = (if y \<in> set ys then first_occ ys else first_occ ys @ [y])"
  by (simp add: first_occ_def)

lemma set_first_occ: "set (first_occ ys) = set ys"
  by (simp add: first_occ_def)

lemma distinct_first_occ: "distinct (first_occ ys)"
  by (simp add: first_occ_def)

lemma counter_add_map:
  "distinct ks \<Longrightarrow>
   counter_add (map (\<lambda>k. (k, f k)) ks) y =
     (if y \<in> set ks then map (\<lambda>k. (k, if k = y then f k + 1 else f k)) ks
      else map (\<lambda>k. (k, f k)) ks @ [(y, 1)])"
  by (induction ks) auto

lemma Counter_snoc: "Counter (ys @ [y]) = counter_add (Counter ys) y"
  by (simp add: Counter_def)

lemma Counter_closed: "Counter ys = map (\<lambda>k. (k, count_list ys k)) (first_occ ys)"
proof (induction ys rule: rev_induct)
  case Nil
  then show ?case by (simp add: Counter_def first_occ_def)
next
  case (snoc y ys)
  show ?case
  proof (cases "y \<in> set ys")
    case True
    then show ?thesis
      by (simp add: Counter_snoc snoc counter_add_map distinct_first_occ set_first_occ
          first_occ_snoc)
  next
    case False
    have lhs: "Counter (ys @ [y]) = map (\<lambda>k. (k, count_list ys k)) (first_occ ys) @ [(y, 1)]"
      using False
      by (simp add: Counter_snoc snoc counter_add_map distinct_first_occ set_first_occ)
    have r1: "first_occ (ys @ [y]) = first_occ ys @ [y]"
      using False by (simp add: first_occ_snoc)
    have r2: "map (\<lambda>k. (k, count_list (ys @ [y]) k)) (first_occ ys)
                = map (\<lambda>k. (k, count_list ys k)) (first_occ ys)"
      using False by (intro map_cong) (auto simp: set_first_occ)
    show ?thesis
      unfolding lhs r1 map_append r2 using False by simp
  qed
qed

lemma min_from_Min: "min_from b xs = Min (insert b (set xs))"
proof (induction xs arbitrary: b)
  case Nil
  then show ?case by simp
next
  case (Cons x xs)
  have "Min (insert b (insert x (set xs))) = Min (insert (min x b) (set xs))"
    by (cases "set xs = {}") (auto simp: min.commute min.left_commute)
  then show ?case
    using Cons [of "if x < b then x else b"] by (simp add: min_def insert_commute)
qed

lemma max_by_count_first:
  "max_by_count best xs =
     hd (filter (\<lambda>w. \<forall>z \<in> set (best # xs). snd z \<le> snd w) (best # xs))"
proof (induction xs arbitrary: best)
  case Nil
  then show ?case by simp
next
  case (Cons x xs)
  let ?b = "if snd best < snd x then x else best"
  let ?M = "\<lambda>w. \<forall>z \<in> set (best # x # xs). snd z \<le> snd w"
  let ?M' = "\<lambda>w. \<forall>z \<in> set (?b # xs). snd z \<le> snd w"
  have same: "?M w \<longleftrightarrow> ?M' w" for w
    by auto
  have ih: "max_by_count best (x # xs) = hd (filter ?M' (?b # xs))"
    using Cons [of ?b] by simp
  show ?case
  proof (cases "snd best < snd x")
    case True
    then have "\<not> ?M best" by auto
    then have "filter ?M (best # x # xs) = filter ?M (x # xs)" by simp
    also have "\<dots> = filter ?M' (?b # xs)"
      using True by (simp add: same del: set_simps) 
    finally show ?thesis using ih by simp
  next
    case False
    show ?thesis
    proof (cases "?M best")
      case True
      then have "?M' best" using same by blast
      with True False ih show ?thesis by simp
    next
      case nb: False
      with False obtain z where z: "z \<in> set xs" "snd best < snd z"
        by (auto simp: not_le)
      with False have "\<not> ?M x"
        by (auto intro!: bexI [of _ z])
      with nb have "filter ?M (best # x # xs) = filter ?M xs" by simp
      moreover from nb same have "\<not> ?M' best" by blast
      then have "filter ?M' (?b # xs) = filter ?M' xs" using False by simp
      moreover have "filter ?M xs = filter ?M' xs"
        using same by (intro filter_cong) auto
      ultimately show ?thesis using ih by simp
    qed
  qed
qed

lemma first_occ_filter: "filter P (first_occ ys) = first_occ (filter P ys)"
  by (simp add: first_occ_def rev_filter remdups_filter)

lemma last_remdups: "xs \<noteq> [] \<Longrightarrow> last (remdups xs) = last xs"
  by (induction xs) auto

lemma hd_first_occ: "zs \<noteq> [] \<Longrightarrow> hd (first_occ zs) = hd zs"
  by (simp add: first_occ_def hd_rev last_remdups last_rev)

lemma first_occ_Nil: "first_occ ys = [] \<longleftrightarrow> ys = []"
  by (simp add: first_occ_def)

lemma Counter_Nil: "Counter ys = [] \<longleftrightarrow> ys = []"
  by (simp add: Counter_closed first_occ_Nil)

lemma sum_counter_add: "sum_list (map snd (counter_add cnt y)) = sum_list (map snd cnt) + 1"
  by (induction cnt y rule: counter_add.induct) auto

lemma sum_Counter: "sum_list (map snd (Counter ys)) = length ys"
  by (induction ys rule: rev_induct) (simp_all add: Counter_snoc sum_counter_add, simp add: Counter_def)

lemma exists_most_frequent:
  assumes "ys \<noteq> []"
  shows "\<exists>y \<in> set ys. \<forall>z \<in> set ys. count_list ys z \<le> count_list ys y"
proof -
  have "Max (count_list ys ` set ys) \<in> count_list ys ` set ys"
    using assms by (intro Max_in) auto
  then obtain y where y: "y \<in> set ys" "count_list ys y = Max (count_list ys ` set ys)"
    by auto
  have "count_list ys z \<le> count_list ys y" if "z \<in> set ys" for z
    unfolding y(2) using that by (intro Max_ge) auto
  with y(1) show ?thesis by blast
qed


lemma peak_of_Counter:
  assumes "Counter ys = c # cs"
  shows "max_by_count c cs = (first_peak ys, count_list ys (first_peak ys))"
proof -
  let ?F = "\<lambda>k. (k, count_list ys k)"
  let ?Q = "\<lambda>y. list_all (\<lambda>z. count_list ys z \<le> count_list ys y) ys"
  from assms have ne: "ys \<noteq> []" using Counter_Nil [of ys] by auto
  have P: "(\<forall>z \<in> set (Counter ys). snd z \<le> snd (?F k)) \<longleftrightarrow> ?Q k" for k
    by (auto simp: Counter_closed set_first_occ list_all_iff)
  have "max_by_count c cs = hd (filter (\<lambda>w. \<forall>z \<in> set (Counter ys). snd z \<le> snd w) (Counter ys))"
    by (simp add: max_by_count_first assms del: set_simps)
  also have "filter (\<lambda>w. \<forall>z \<in> set (Counter ys). snd z \<le> snd w) (Counter ys)
               = map ?F (filter ?Q (first_occ ys))"
    using P by (subst (2) Counter_closed) (simp add: filter_map comp_def)
  also have "filter ?Q (first_occ ys) = first_occ (filter ?Q ys)"
    by (rule first_occ_filter)
  finally have "max_by_count c cs = hd (map ?F (first_occ (filter ?Q ys)))" .
  moreover from exists_most_frequent [OF ne] have ne': "filter ?Q ys \<noteq> []"
    by (auto simp: filter_empty_conv list_all_iff)
  ultimately show ?thesis
    by (simp add: hd_map first_occ_Nil hd_first_occ first_peak_def)
qed

lemma temporal_row_Nil: "temporal_row g d [] = None"
  by (simp add: temporal_row_def Counter_def)

lemma temporal_row_closed:
  assumes "ys \<noteq> []"
  shows "temporal_row g d ys =
     Some \<lparr>gene = g, disease = d, first_mention = Min (set ys), peak_year = first_peak ys,
           time_to_peak = first_peak ys - Min (set ys), total_mentions = length ys,
           peak_count = count_list ys (first_peak ys),
           burstiness = of_nat (count_list ys (first_peak ys)) / of_nat (length ys),
           annual_counts = sorted_items (Counter ys)\<rparr>"
proof -
  from assms obtain c cs where cnt: "Counter ys = c # cs"
    using Counter_Nil [of ys] by (cases "Counter ys") auto
  have "insert (fst c) (set (map fst cs)) = set (map fst (Counter ys))"
    by (simp add: cnt)
  also have "\<dots> = set ys"
    by (simp add: Counter_closed comp_def set_first_occ)
  finally have mn: "min_from (fst c) (map fst cs) = Min (set ys)"
    by (simp add: min_from_Min)
  have total: "sum_list (map snd (c # cs)) = length ys"
    using sum_Counter [of ys] by (simp add: cnt)
  have pk: "max_by_count c cs = (first_peak ys, count_list ys (first_peak ys))"
    by (rule peak_of_Counter [OF cnt])
  show ?thesis
    unfolding temporal_row_def cnt list.case Let_def mn pk total
    using assms by (simp add: cnt [symmetric])
qed



lemma stats_build: "build_graph stats_pairs_ex = stats_graph_ex"
  by (simp add: build_graph_def build_loop_def stats_pairs_ex_def stats_graph_ex_def
      stats_edge_ex_def build_step_def
      empty_graph_def is_valid_gene_id_def is_valid_disease_id_def isdigit_def
      is_digit_char_def startswith_def has_node_def add_node_def has_edge_def joins_def
      append_evidence_def add_edge_def ensure_node_def Let_def)








text \<open>
  C8. The peak year of a row is a function of the edge's list of years alone: it is the
  first year of the list among those of greatest count, whatever the edge, its endpoints
  or the run. Years 2000 and 2001 with one mention each give 2000.
\<close>

theorem peak_year_deterministic:
  assumes "temporal_row g d ys = Some r" and "temporal_row g' d' ys = Some r'"
  shows "peak_year r = first_peak ys \<and> peak_year r' = peak_year r"
proof -
  from assms(1) have "ys \<noteq> []"
    by (auto simp: temporal_row_Nil)
  from temporal_row_closed [OF this] assms show ?thesis
    by auto
qed

theorem peak_year_deterministic_witness:
  "temporal_row ''1'' ''D000001'' [2000, 2001] \<noteq> None \<and>
   peak_year (the (temporal_row ''1'' ''D000001'' [2000, 2001])) = 2000 \<and>
   peak_year (the (temporal_row ''2'' ''MESH:D000002'' [2000, 2001])) = 2000 \<and>
   first_peak [2000, 2001] = 2000 \<and> first_peak [2001, 2000] = 2001"
proof -
  have "temporal_row ''1'' ''D000001'' [2000, 2001] \<noteq> None"
    and "temporal_row ''2'' ''MESH:D000002'' [2000, 2001] \<noteq> None"
    by (simp_all add: temporal_row_def Counter_def)
  then obtain r r' where a: "temporal_row ''1'' ''D000001'' [2000, 2001] = Some r"
    and b: "temporal_row ''2'' ''MESH:D000002'' [2000, 2001] = Some r'"
    by blast
  have fp: "first_peak [2000, 2001] = 2000" "first_peak [2001, 2000] = 2001"
    by (simp_all add: first_peak_def)
  from peak_year_deterministic [OF a b] have "peak_year r = first_peak [2000, 2001]"
    and "peak_year r' = peak_year r"
    by simp_all
  with fp show ?thesis
    by (simp add: a b)
qed

section \<open>The analyzer on built graphs\<close>








section \<open>Order of the report\<close>










end
